theory Spec2Isabelle
  imports Main "HOL-Library.AList"
begin

section \<open>Event delegation: \<open>event-manager.ts\<close>\<close>

subsection \<open>Objects and the host's listener list\<close>

text \<open>
  Objects are identified by numbers: an \<open>EventTarget\<close> or \<open>Node\<close> by a \<open>node\<close>, a
  listener by the identity of the function or of the handler object, a
  \<open>ListenerTracker\<close> and a per-target lookup record by their position in the store
  of the objects allocated so far.
\<close>

type_synonym node = nat

datatype listener = FunctionListener nat | HandlerObjectListener nat

record AddEventListenerOptions =
  capture :: "bool option"

definition defaultOptions :: AddEventListenerOptions where
  "defaultOptions = \<lparr>capture = Some False\<rparr>"

text \<open>
  The host keeps, for every event target, a list of listeners; a listener is
  identified by its type, its callback and its capture flag. The callback is either
  the bound \<open>handleEvent\<close> of one tracker or a listener attached directly.
  \<open>addEventListener\<close> of the host does nothing when the same listener is already in
  the list, and \<open>removeEventListener\<close> removes the matching one. An absent
  \<open>capture\<close> option counts as \<open>false\<close>.
\<close>

datatype native_callback = TrackerHandleEvent nat | DirectListener listener

datatype native_listener =
  NativeListener (nl_target: node) (nl_type: string) (nl_callback: native_callback) (nl_capture: bool)

definition flatten_capture :: "AddEventListenerOptions \<Rightarrow> bool" where
  "flatten_capture opts = (capture opts = Some True)"

definition host_addEventListener ::
  "node \<Rightarrow> string \<Rightarrow> native_callback \<Rightarrow> bool \<Rightarrow> native_listener list \<Rightarrow> native_listener list" where
  "host_addEventListener p ty cb cap ls =
     (if NativeListener p ty cb cap \<in> set ls then ls else ls @ [NativeListener p ty cb cap])"

definition host_removeEventListener ::
  "node \<Rightarrow> string \<Rightarrow> native_callback \<Rightarrow> bool \<Rightarrow> native_listener list \<Rightarrow> native_listener list" where
  "host_removeEventListener p ty cb cap ls = removeAll (NativeListener p ty cb cap) ls"

subsection \<open>The store\<close>

text \<open>
  A lookup record maps an event name to a listener or to \<open>undefined\<close> (\<open>Some None\<close>:
  the key is there and holds \<open>undefined\<close>); reading a key that is not there gives
  \<open>undefined\<close> as well.
\<close>

type_synonym lookup_record = "string \<rightharpoonup> listener option"

definition read_lookup :: "lookup_record \<Rightarrow> string \<Rightarrow> listener option" where
  "read_lookup r k = (case r k of None \<Rightarrow> None | Some v \<Rightarrow> v)"

record ListenerTracker =
  count :: int
  captureLookups :: "node \<rightharpoonup> nat"
  bubbleLookups :: "node \<rightharpoonup> nat"
  publisher :: node
  eventName :: string
  options :: AddEventListenerOptions

record DelegateSubscription =
  sub_tracker :: nat
  sub_lookup :: nat
  sub_eventName :: string

text \<open>
  The state: the listeners attached at the host, the trackers and the lookup records
  allocated so far, and the \<open>trackerMaps\<close> of the \<open>EventManager\<close>, an object from event
  names to a \<open>Map\<close> from publishers to trackers, both in insertion order (a \<open>for-in\<close>
  loop visits keys that look like array indices first; event names are taken not to).
  The count of a tracker is a JavaScript number; it is an \<open>int\<close> here, exact as long as
  it stays within 53 bits.
\<close>

record world =
  native :: "native_listener list"
  trackers :: "ListenerTracker list"
  lookups :: "lookup_record list"
  trackerMaps :: "(string \<times> (node \<times> nat) list) list"

definition EventManager_new :: world where
  "EventManager_new = \<lparr>native = [], trackers = [], lookups = [], trackerMaps = []\<rparr>"

subsection \<open>\<open>ListenerTracker\<close>\<close>

definition ListenerTracker_new ::
  "node \<Rightarrow> string \<Rightarrow> AddEventListenerOptions option \<Rightarrow> ListenerTracker" where
  "ListenerTracker_new p e opts =
     \<lparr>count = 0, captureLookups = Map.empty, bubbleLookups = Map.empty,
      publisher = p, eventName = e,
      options = (case opts of None \<Rightarrow> defaultOptions | Some x \<Rightarrow> x)\<rparr>"

definition tracker_listener :: "nat \<Rightarrow> ListenerTracker \<Rightarrow> native_listener" where
  "tracker_listener tid t =
     NativeListener (publisher t) (eventName t) (TrackerHandleEvent tid) (flatten_capture (options t))"

definition ListenerTracker_increment :: "nat \<Rightarrow> world \<Rightarrow> world" where
  "ListenerTracker_increment tid s =
     (if tid < length (trackers s) then
        (let t = trackers s ! tid;
             c = count t + 1;
             s' = s\<lparr>trackers := (trackers s)[tid := t\<lparr>count := c\<rparr>]\<rparr>
         in if c = 1
            then s'\<lparr>native := host_addEventListener (publisher t) (eventName t)
                      (TrackerHandleEvent tid) (flatten_capture (options t)) (native s')\<rparr>
            else s')
      else s)"

definition ListenerTracker_decrement :: "nat \<Rightarrow> world \<Rightarrow> world" where
  "ListenerTracker_decrement tid s =
     (if tid < length (trackers s) then
        (let t = trackers s ! tid;
             c = count t - 1;
             s' = s\<lparr>trackers := (trackers s)[tid := t\<lparr>count := c\<rparr>]\<rparr>
         in if c = 0
            then s'\<lparr>native := host_removeEventListener (publisher t) (eventName t)
                      (TrackerHandleEvent tid) (flatten_capture (options t)) (native s')\<rparr>
            else s')
      else s)"

definition ListenerTracker_dispose :: "nat \<Rightarrow> world \<Rightarrow> world" where
  "ListenerTracker_dispose tid s =
     (if tid < length (trackers s) then
        (let t = trackers s ! tid;
             s1 = (if count t > 0
                   then s\<lparr>trackers := (trackers s)[tid := t\<lparr>count := 0\<rparr>],
                          native := host_removeEventListener (publisher t) (eventName t)
                            (TrackerHandleEvent tid) (flatten_capture (options t)) (native s)\<rparr>
                   else s);
             t1 = trackers s1 ! tid
         in s1\<lparr>trackers := (trackers s1)
                  [tid := t1\<lparr>captureLookups := Map.empty, bubbleLookups := Map.empty\<rparr>]\<rparr>)
      else s)"

definition ListenerTracker_getLookup :: "nat \<Rightarrow> node \<Rightarrow> world \<Rightarrow> nat \<times> world" where
  "ListenerTracker_getLookup tid target s =
     (let t = trackers s ! tid;
          cap = (capture (options t) = Some True);
          lks = (if cap then captureLookups t else bubbleLookups t)
      in case lks target of
           Some lookup \<Rightarrow> (lookup, s)
         | None \<Rightarrow>
             (let lookup = length (lookups s);
                  t' = (if cap then t\<lparr>captureLookups := (captureLookups t)(target \<mapsto> lookup)\<rparr>
                        else t\<lparr>bubbleLookups := (bubbleLookups t)(target \<mapsto> lookup)\<rparr>)
              in (lookup, s\<lparr>lookups := lookups s @ [Map.empty],
                            trackers := (trackers s)[tid := t']\<rparr>)))"

subsection \<open>\<open>DelegateSubscription\<close>\<close>

definition DelegateSubscription_new ::
  "nat \<Rightarrow> nat \<Rightarrow> string \<Rightarrow> listener \<Rightarrow> world \<Rightarrow> DelegateSubscription \<times> world" where
  "DelegateSubscription_new tid lookup name callback s =
     (let s1 = ListenerTracker_increment tid s;
          s2 = s1\<lparr>lookups := (lookups s1)[lookup := (lookups s1 ! lookup)(name \<mapsto> Some callback)]\<rparr>
      in (\<lparr>sub_tracker = tid, sub_lookup = lookup, sub_eventName = name\<rparr>, s2))"

definition DelegateSubscription_dispose :: "DelegateSubscription \<Rightarrow> world \<Rightarrow> world" where
  "DelegateSubscription_dispose sub s =
     (let s1 = ListenerTracker_decrement (sub_tracker sub) s
      in s1\<lparr>lookups := (lookups s1)
               [sub_lookup sub := (lookups s1 ! sub_lookup sub)(sub_eventName sub \<mapsto> None)]\<rparr>)"

subsection \<open>\<open>EventManager\<close>\<close>

definition EventManager_addEventListener ::
  "node \<Rightarrow> node \<Rightarrow> string \<Rightarrow> listener \<Rightarrow> AddEventListenerOptions option \<Rightarrow> world
     \<Rightarrow> DelegateSubscription \<times> world" where
  "EventManager_addEventListener pub target name callback opts s =
     (let trackerMap = (case map_of (trackerMaps s) name of None \<Rightarrow> [] | Some m \<Rightarrow> m);
          s0 = (case map_of (trackerMaps s) name of
                  None \<Rightarrow> s\<lparr>trackerMaps := trackerMaps s @ [(name, [])]\<rparr>
                | Some m \<Rightarrow> s);
          (tracker, s1) =
            (case map_of trackerMap pub of
               Some tid \<Rightarrow> (tid, s0)
             | None \<Rightarrow>
                 (let tid = length (trackers s0)
                  in (tid, s0\<lparr>trackers := trackers s0 @ [ListenerTracker_new pub name opts],
                              trackerMaps := AList.update name
                                (AList.update pub tid trackerMap) (trackerMaps s0)\<rparr>)));
          (lookup, s2) = ListenerTracker_getLookup tracker target s1
      in DelegateSubscription_new tracker lookup name callback s2)"

fun dispose_trackerMaps ::
  "(string \<times> (node \<times> nat) list) list \<Rightarrow> world \<Rightarrow> (string \<times> (node \<times> nat) list) list \<times> world" where
  "dispose_trackerMaps [] s = ([], s)"
| "dispose_trackerMaps ((name, trackerMap) # rest) s =
     (let s1 = fold (\<lambda>(p, tid). ListenerTracker_dispose tid) trackerMap s;
          (rest', s2) = dispose_trackerMaps rest s1
      in ((name, []) # rest', s2))"

definition EventManager_dispose :: "world \<Rightarrow> world" where
  "EventManager_dispose s =
     (let (maps, s1) = dispose_trackerMaps (trackerMaps s) s
      in s1\<lparr>trackerMaps := maps\<rparr>)"

subsection \<open>Dispatch: \<open>ListenerTracker.handleEvent\<close>\<close>

text \<open>
  An event carries its propagation path (\<open>composedPath()\<close>, from the target up to
  the root) and its cancel-bubble flag. What a listener does when it is called is
  given by the environment: it returns with the event as it left it, or throws
  (\<open>None\<close>). A function is called itself, a handler object through its
  \<open>handleEvent\<close> method. Listeners that change the registrations while a dispatch
  runs are outside this model.
\<close>

record Event =
  composedPath :: "node list"
  cancelBubble :: bool

record listener_env =
  call_function :: "nat \<Rightarrow> Event \<Rightarrow> Event option"
  call_handleEvent :: "nat \<Rightarrow> Event \<Rightarrow> Event option"

fun invoke :: "listener_env \<Rightarrow> listener \<Rightarrow> Event \<Rightarrow> Event option" where
  "invoke env (FunctionListener f) event = call_function env f event"
| "invoke env (HandlerObjectListener h) event = call_handleEvent env h event"

datatype outcome = Returned Event | Thrown

text \<open>
  The loop over the path. The result is the list of the listeners invoked, each with
  the node it was registered on, in the order of the calls, and how the loop ended.
\<close>

fun walk ::
  "listener_env \<Rightarrow> (node \<rightharpoonup> nat) \<Rightarrow> lookup_record list \<Rightarrow> string \<Rightarrow> node list \<Rightarrow> Event
     \<Rightarrow> (node \<times> listener) list \<times> outcome" where
  "walk env lks heap name [] event = ([], Returned event)"
| "walk env lks heap name (target # path) event =
     (case lks target of
        None \<Rightarrow> walk env lks heap name path event
      | Some lookup \<Rightarrow>
          (case read_lookup (heap ! lookup) name of
             None \<Rightarrow> walk env lks heap name path event
           | Some listener \<Rightarrow>
               (case invoke env listener event of
                  None \<Rightarrow> ([(target, listener)], Thrown)
                | Some event' \<Rightarrow>
                    if cancelBubble event' then ([(target, listener)], Returned event')
                    else (let (calls, res) = walk env lks heap name path event'
                          in ((target, listener) # calls, res)))))"

definition ListenerTracker_handleEvent ::
  "listener_env \<Rightarrow> nat \<Rightarrow> Event \<Rightarrow> world \<Rightarrow> (node \<times> listener) list \<times> outcome" where
  "ListenerTracker_handleEvent env tid event s =
     (let t = trackers s ! tid;
          lks = (if capture (options t) = Some True then captureLookups t else bubbleLookups t);
          path = composedPath event;
          path' = (if capture (options t) = Some True then rev path else path)
      in walk env lks (lookups s) (eventName t) path' event)"

text \<open>
  The listener held for a node, as the loop reads it: through the node's lookup record
  and the entry for the event name.
\<close>

definition listener_at ::
  "(node \<rightharpoonup> nat) \<Rightarrow> lookup_record list \<Rightarrow> string \<Rightarrow> node \<Rightarrow> listener option" where
  "listener_at lks heap name n =
     (case lks n of None \<Rightarrow> None | Some lookup \<Rightarrow> read_lookup (heap ! lookup) name)"

definition registered :: "world \<Rightarrow> nat \<Rightarrow> node \<Rightarrow> listener option" where
  "registered s tid n =
     (let t = trackers s ! tid;
          lks = (if capture (options t) = Some True then captureLookups t else bubbleLookups t)
      in listener_at lks (lookups s) (eventName t) n)"

definition registrations :: "world \<Rightarrow> nat \<Rightarrow> node list \<Rightarrow> (node \<times> listener) list" where
  "registrations s tid path =
     List.map_filter (\<lambda>n. map_option (Pair n) (registered s tid n)) path"

subsection \<open>\<open>EventSubscriber\<close>\<close>

record EventSubscriber =
  target :: "node option"
  handler :: "listener option"
  events :: "string list"

definition EventSubscriber_new :: "string list \<Rightarrow> EventSubscriber" where
  "EventSubscriber_new evs = \<lparr>target = None, handler = None, events = evs\<rparr>"

text \<open>
  Modelled from the spec: \<open>IDOM.addEventListener\<close> and \<open>IDOM.removeEventListener\<close>
  of \<open>@aurelia/runtime\<close>, which the sources only import. By the spec the subscriber
  attaches and detaches its listener directly on the node, so they are the host's
  operations at that node, with no options. Nothing says what they do for a \<open>null\<close>
  node or listener: there the model has no result (\<open>None\<close>).
\<close>

definition dom_addEventListener ::
  "string \<Rightarrow> listener \<Rightarrow> node \<Rightarrow> native_listener list \<Rightarrow> native_listener list" where
  "dom_addEventListener ev cb n ls = host_addEventListener n ev (DirectListener cb) False ls"

definition dom_removeEventListener ::
  "string \<Rightarrow> listener option \<Rightarrow> node option \<Rightarrow> native_listener list \<Rightarrow> native_listener list option" where
  "dom_removeEventListener ev cb n ls =
     (case (cb, n) of
        (Some c, Some m) \<Rightarrow> Some (host_removeEventListener m ev (DirectListener c) False ls)
      | _ \<Rightarrow> None)"

definition EventSubscriber_subscribe ::
  "node \<Rightarrow> listener \<Rightarrow> EventSubscriber \<times> native_listener list \<Rightarrow> EventSubscriber \<times> native_listener list" where
  "EventSubscriber_subscribe n callbackOrListener st =
     (let this = (fst st)\<lparr>target := Some n, handler := Some callbackOrListener\<rparr>
      in (this, fold (\<lambda>ev ls. dom_addEventListener ev callbackOrListener n ls) (events this) (snd st)))"

fun remove_each ::
  "string list \<Rightarrow> listener option \<Rightarrow> node option \<Rightarrow> native_listener list \<Rightarrow> native_listener list option" where
  "remove_each [] cb n ls = Some ls"
| "remove_each (ev # evs) cb n ls =
     (case dom_removeEventListener ev cb n ls of
        None \<Rightarrow> None
      | Some ls' \<Rightarrow> remove_each evs cb n ls')"

definition EventSubscriber_dispose ::
  "EventSubscriber \<times> native_listener list \<Rightarrow> (EventSubscriber \<times> native_listener list) option" where
  "EventSubscriber_dispose st =
     (let this = fst st
      in case remove_each (events this) (handler this) (target this) (snd st) of
           None \<Rightarrow> None
         | Some ls \<Rightarrow> Some (this\<lparr>target := None, handler := None\<rparr>, ls))"

subsection \<open>Programs over one \<open>EventManager\<close>\<close>

text \<open>
  A client of the manager registers listeners, disposes subscriptions it was given
  (any of them, any number of times) and disposes the manager. \<open>run\<close> executes such a
  program on a new manager and collects the subscriptions returned.
\<close>

datatype command =
  AddEventListener node node string listener "AddEventListenerOptions option"
| DisposeSubscription nat
| DisposeManager

fun exec :: "command \<Rightarrow> world \<times> DelegateSubscription list \<Rightarrow> world \<times> DelegateSubscription list" where
  "exec (AddEventListener pub tgt name callback opts) (s, subs) =
     (let (sub, s') = EventManager_addEventListener pub tgt name callback opts s
      in (s', subs @ [sub]))"
| "exec (DisposeSubscription k) (s, subs) =
     (if k < length subs then (DelegateSubscription_dispose (subs ! k) s, subs) else (s, subs))"
| "exec DisposeManager (s, subs) = (EventManager_dispose s, subs)"

definition run :: "command list \<Rightarrow> world \<times> DelegateSubscription list" where
  "run cmds = fold exec cmds (EventManager_new, [])"



definition tracker_for :: "world \<Rightarrow> string \<Rightarrow> node \<Rightarrow> nat option" where
  "tracker_for s name pub =
     (case map_of (trackerMaps s) name of None \<Rightarrow> None | Some m \<Rightarrow> map_of m pub)"

subsection \<open>Notions for the proofs\<close>

text \<open>
  What the reference counting is about: the count of a tracker, the one listener it
  attaches at the host (fixed when the tracker is created), and the trackers the
  manager's maps hold.
\<close>

definition listener_of :: "world \<Rightarrow> nat \<Rightarrow> native_listener" where
  "listener_of s tid = tracker_listener tid (trackers s ! tid)"

definition count_of :: "world \<Rightarrow> nat \<Rightarrow> int" where
  "count_of s tid = count (trackers s ! tid)"

definition tracked :: "world \<Rightarrow> nat set" where
  "tracked s = snd ` set (concat (map snd (trackerMaps s)))"

text \<open>
  The invariant of the manager: the maps hold only allocated trackers, and every
  listener attached at the host is the listener of a tracker that the maps hold and
  whose count is positive.
\<close>

definition consistent :: "world \<Rightarrow> bool" where
  "consistent s =
     ((\<forall>tid \<in> tracked s. tid < length (trackers s)) \<and>
      (\<forall>l \<in> set (native s). \<exists>tid \<in> tracked s. 0 < count_of s tid \<and> l = listener_of s tid))"

text \<open>
  The two halves of \<open>addEventListener\<close>: creating the tracker for a publisher and an
  event name that have none, and registering a listener with a tracker.
\<close>

definition create_tracker :: "node \<Rightarrow> string \<Rightarrow> AddEventListenerOptions option \<Rightarrow> world \<Rightarrow> world" where
  "create_tracker pub name opts s =
     (let trackerMap = (case map_of (trackerMaps s) name of None \<Rightarrow> [] | Some m \<Rightarrow> m);
          s0 = (case map_of (trackerMaps s) name of
                  None \<Rightarrow> s\<lparr>trackerMaps := trackerMaps s @ [(name, [])]\<rparr>
                | Some m \<Rightarrow> s)
      in s0\<lparr>trackers := trackers s0 @ [ListenerTracker_new pub name opts],
            trackerMaps := AList.update name
              (AList.update pub (length (trackers s0)) trackerMap) (trackerMaps s0)\<rparr>)"

definition register :: "nat \<Rightarrow> node \<Rightarrow> string \<Rightarrow> listener \<Rightarrow> world \<Rightarrow> DelegateSubscription \<times> world" where
  "register tid tgt name callback s =
     (let (lookup, s2) = ListenerTracker_getLookup tid tgt s
      in DelegateSubscription_new tid lookup name callback s2)"


section \<open>Slot composition: \<open>au-slot.js\<close>\<close>

text \<open>A JavaScript value that may be \<open>undefined\<close> or \<open>null\<close>.\<close>

datatype 'a nullable = Undefined | Null | Value 'a

definition nullish :: "'a nullable \<Rightarrow> 'a nullable \<Rightarrow> 'a nullable" where
  "nullish a b = (if a \<noteq> Null \<and> a \<noteq> Undefined then a else b)"

datatype Scope = Scope (scope_id: nat) (parentScope: "Scope nullable")

datatype AuSlotContentType = Projection | Fallback

record RegisteredProjections =
  rp_scope :: "Scope nullable"
  rp_projections :: "(string \<times> nat) list"

subsection \<open>\<open>ProjectionProvider\<close>\<close>

text \<open>
  \<open>projectionMap\<close> is one \<open>WeakMap\<close> of the module, keyed by the identity of the
  instruction; the provider has no field of its own, so \<open>this\<close> is only its identity.
\<close>

type_synonym projectionMap = "nat \<rightharpoonup> RegisteredProjections"

definition weakmap_get :: "projectionMap \<Rightarrow> nat \<Rightarrow> RegisteredProjections nullable" where
  "weakmap_get m k = (case m k of None \<Rightarrow> Undefined | Some v \<Rightarrow> Value v)"

definition registerProjections ::
  "nat \<Rightarrow> (nat \<times> (string \<times> nat) list) list \<Rightarrow> Scope nullable \<Rightarrow> projectionMap \<Rightarrow> projectionMap" where
  "registerProjections this projections scope m =
     fold (\<lambda>(instruction, ps) m'. m'(instruction \<mapsto> \<lparr>rp_scope = scope, rp_projections = ps\<rparr>))
       projections m"

definition getProjectionFor :: "nat \<Rightarrow> nat \<Rightarrow> projectionMap \<Rightarrow> RegisteredProjections nullable" where
  "getProjectionFor this instruction m = nullish (weakmap_get m instruction) Null"

text \<open>The map after a history of \<open>registerProjections\<close> calls, each by some provider.\<close>

definition registered_by ::
  "(nat \<times> (nat \<times> (string \<times> nat) list) list \<times> Scope nullable) list \<Rightarrow> projectionMap" where
  "registered_by calls =
     fold (\<lambda>(this, projections, scope) m. registerProjections this projections scope m)
       calls Map.empty"

subsection \<open>\<open>AuSlot\<close>\<close>

record ViewFactory =
  contentType :: AuSlotContentType
  projectionScope :: "Scope nullable"

record View =
  location :: "nat nullable"
  isActive :: bool
  bindingScope :: "Scope nullable"
  viewHostScope :: "Scope nullable"

text \<open>
  Modelled from the spec: \<open>ViewFactory.create\<close>, \<open>View.setLocation\<close>,
  \<open>View.activate\<close> and \<open>View.deactivate\<close> of the templating layer, which the sources
  only import. By the spec a created view is inactive, activation binds the view's
  internal bindings using the scope it is given and deactivation reverses the binding;
  the view records the scope it is bound against.
\<close>

definition ViewFactory_create :: "ViewFactory \<Rightarrow> View" where
  "ViewFactory_create factory =
     \<lparr>location = Undefined, isActive = False, bindingScope = Undefined, viewHostScope = Undefined\<rparr>"

definition View_setLocation :: "nat \<Rightarrow> View \<Rightarrow> View" where
  "View_setLocation loc v = v\<lparr>location := Value loc\<rparr>"

definition View_activate ::
  "nat \<Rightarrow> nat \<Rightarrow> nat \<Rightarrow> Scope nullable \<Rightarrow> Scope nullable \<Rightarrow> View \<Rightarrow> View" where
  "View_activate initiator ctrl flags scope hostScope' v =
     v\<lparr>isActive := True, bindingScope := scope, viewHostScope := hostScope'\<rparr>"

definition View_deactivate :: "nat \<Rightarrow> nat \<Rightarrow> nat \<Rightarrow> View \<Rightarrow> View" where
  "View_deactivate initiator ctrl flags v =
     v\<lparr>isActive := False, bindingScope := Undefined, viewHostScope := Undefined\<rparr>"

text \<open>
  \<open>$controller\<close> is the property the framework installs on the element: its identity
  and its scope.
\<close>

record Controller =
  controller_id :: nat
  scope :: Scope

record AuSlot =
  hostScope :: "Scope nullable"
  view :: View
  isProjection :: bool
  outerScope :: "Scope nullable"
  controller :: Controller

definition AuSlot_new :: "ViewFactory \<Rightarrow> nat \<Rightarrow> Controller \<Rightarrow> AuSlot" where
  "AuSlot_new factory loc ctrl =
     \<lparr>hostScope = Null,
      view = View_setLocation loc (ViewFactory_create factory),
      isProjection = (contentType factory = Projection),
      outerScope = projectionScope factory,
      controller = ctrl\<rparr>"

definition AuSlot_binding :: "nat \<Rightarrow> nat \<Rightarrow> nat \<Rightarrow> AuSlot \<Rightarrow> AuSlot" where
  "AuSlot_binding initiator parent flags this =
     this\<lparr>hostScope := parentScope (scope (controller this))\<rparr>"

definition AuSlot_attaching :: "nat \<Rightarrow> nat \<Rightarrow> nat \<Rightarrow> AuSlot \<Rightarrow> AuSlot" where
  "AuSlot_attaching initiator parent flags this =
     this\<lparr>view := View_activate initiator (controller_id (controller this)) flags
               (nullish (outerScope this) (hostScope this)) (hostScope this) (view this)\<rparr>"

definition AuSlot_detaching :: "nat \<Rightarrow> nat \<Rightarrow> nat \<Rightarrow> AuSlot \<Rightarrow> AuSlot" where
  "AuSlot_detaching initiator parent flags this =
     this\<lparr>view := View_deactivate initiator (controller_id (controller this)) flags (view this)\<rparr>"

section \<open>Properties of the slot composition\<close>

subsection \<open>The projection map\<close>

lemma registerProjections_apply:
  "registerProjections this projections sc m instruction =
     (case map_of (rev projections) instruction of
        None \<Rightarrow> m instruction
      | Some ps \<Rightarrow> Some \<lparr>rp_scope = sc, rp_projections = ps\<rparr>)"
  unfolding registerProjections_def
  by (induction projections arbitrary: m) (auto simp: map_add_def split: option.splits)

lemma registered_by_unregistered:
  "\<forall>(this, projections, sc) \<in> set calls. instruction \<notin> fst ` set projections \<Longrightarrow>
   fold (\<lambda>(this, projections, sc) m. registerProjections this projections sc m) calls m instruction
     = m instruction"
proof (induction calls arbitrary: m)
  case Nil
  then show ?case by simp
next
  case (Cons c calls)
  obtain this projections sc where c: "c = (this, projections, sc)"
    by (cases c) auto
  from Cons.prems c have "map_of (rev projections) instruction = None"
    by (simp add: map_of_eq_None_iff)
  then have "registerProjections this projections sc m instruction = m instruction"
    by (simp add: registerProjections_apply)
  with Cons c show ?case by simp
qed

text \<open>
  C8. For an instruction that no \<open>registerProjections\<close> call of the history has
  registered, \<open>getProjectionFor\<close> returns \<open>null\<close>; the function has no path that
  throws.
\<close>

theorem getProjectionFor_unregistered:
  "\<forall>(this, projections, sc) \<in> set calls. instruction \<notin> fst ` set projections \<Longrightarrow>
   getProjectionFor provider instruction (registered_by calls) = Null"
  by (simp add: getProjectionFor_def registered_by_def registered_by_unregistered
      weakmap_get_def nullish_def)

theorem getProjectionFor_unregistered_witness:
  "getProjectionFor 5 2 (registered_by [(0, [(1, [(''default'', 7)])], Null), (3, [(4, [])], Null)]) = Null"
  using getProjectionFor_unregistered
    [of "[(0, [(1, [(''default'', 7)])], Null), (3, [(4, [])], Null)]" 2 5]
  by simp

text \<open>
  C10. The registrations live in the one map of the module: what provider \<open>A\<close>
  registers for an instruction (the last entry for it, should the call list it more
  than once), provider \<open>B\<close> gets back, paired with the scope of the call, and the
  answer does not depend on which provider is asked.
\<close>

theorem projectionMap_shared:
  "map_of (rev projections) instruction = Some ps \<Longrightarrow>
   getProjectionFor B instruction (registerProjections A projections sc m)
     = Value \<lparr>rp_scope = sc, rp_projections = ps\<rparr> \<and>
   getProjectionFor B instruction (registerProjections A projections sc m)
     = getProjectionFor A instruction (registerProjections A projections sc m)"
  by (simp add: getProjectionFor_def registerProjections_apply weakmap_get_def nullish_def)

theorem projectionMap_shared_witness:
  "map_of (rev [(1::nat, [(''default'', 7::nat)]), (3, [])]) 1 = Some [(''default'', 7)] \<and>
   getProjectionFor 8 1 (registerProjections 9 [(1, [(''default'', 7)]), (3, [])] (Value (Scope 4 Null)) Map.empty)
     = Value \<lparr>rp_scope = Value (Scope 4 Null), rp_projections = [(''default'', 7)]\<rparr> \<and>
   getProjectionFor 8 1 (registerProjections 9 [(1, [(''default'', 7)]), (3, [])] (Value (Scope 4 Null)) Map.empty)
     = getProjectionFor 9 1 (registerProjections 9 [(1, [(''default'', 7)]), (3, [])] (Value (Scope 4 Null)) Map.empty)"
proof -
  have h: "map_of (rev [(1::nat, [(''default'', 7::nat)]), (3, [])]) 1 = Some [(''default'', 7)]"
    by simp
  from projectionMap_shared [OF h, of 8 9 "Value (Scope 4 Null)" Map.empty] h
  show ?thesis by blast
qed

subsection \<open>The scope of a slot's view\<close>

text \<open>
  C6. A slot built from a factory that carries a projection scope \<open>S\<close> activates its
  view against \<open>S\<close>, whatever the host's scope is; when the factory carries none
  (\<open>null\<close> or \<open>undefined\<close>), the view is activated against the parent scope of the
  scope of the slot's controller, which \<open>binding\<close> stored as the host scope. That host
  scope is passed to the view as its host scope in every case.
\<close>

theorem AuSlot_scope:
  "bindingScope (view (AuSlot_attaching i p f (AuSlot_binding i' p' f'
       (AuSlot_new \<lparr>contentType = ct, projectionScope = Value S\<rparr> loc ctrl)))) = Value S \<and>
   bindingScope (view (AuSlot_attaching i p f (AuSlot_binding i' p' f'
       (AuSlot_new \<lparr>contentType = ct, projectionScope = Null\<rparr> loc ctrl)))) = parentScope (scope ctrl) \<and>
   bindingScope (view (AuSlot_attaching i p f (AuSlot_binding i' p' f'
       (AuSlot_new \<lparr>contentType = ct, projectionScope = Undefined\<rparr> loc ctrl)))) = parentScope (scope ctrl) \<and>
   viewHostScope (view (AuSlot_attaching i p f (AuSlot_binding i' p' f'
       (AuSlot_new \<lparr>contentType = ct, projectionScope = ps\<rparr> loc ctrl)))) = parentScope (scope ctrl)"
  by (simp add: AuSlot_attaching_def AuSlot_binding_def AuSlot_new_def View_activate_def nullish_def)

section \<open>Properties of the direct subscriber\<close>

lemma set_fold_add:
  "set (fold (\<lambda>ev ls. dom_addEventListener ev cb n ls) evs ls)
     = set ls \<union> (\<lambda>ev. NativeListener n ev (DirectListener cb) False) ` set evs"
  by (induction evs arbitrary: ls) (auto simp: dom_addEventListener_def host_addEventListener_def)

lemma remove_each_Some:
  "remove_each evs (Some cb) (Some n) ls
     = Some (filter (\<lambda>l. l \<notin> (\<lambda>ev. NativeListener n ev (DirectListener cb) False) ` set evs) ls)"
proof (induction evs arbitrary: ls)
  case Nil
  then show ?case by simp
next
  case (Cons ev evs)
  have "removeAll x ls = filter (\<lambda>l. l \<noteq> x) ls" for x :: native_listener
    by (induction ls) auto
  then show ?case
    by (auto simp: Cons dom_removeEventListener_def host_removeEventListener_def intro: filter_cong)
qed

text \<open>
  C9. A subscriber that subscribes to a node \<open>n1\<close> and then, before any dispose, to
  another node \<open>n2\<close> holds only \<open>n2\<close> and the second listener. Its \<open>dispose\<close> then
  detaches the listeners of the second subscription and clears the stored references;
  every listener the first subscription attached on \<open>n1\<close> is still attached, and so is
  every listener on a node other than \<open>n2\<close>.
\<close>

theorem subscribe_twice:
  "n1 \<noteq> n2 \<Longrightarrow>
   target (fst (EventSubscriber_subscribe n2 cb2 (EventSubscriber_subscribe n1 cb1 (this, ls)))) = Some n2 \<and>
   handler (fst (EventSubscriber_subscribe n2 cb2 (EventSubscriber_subscribe n1 cb1 (this, ls)))) = Some cb2 \<and>
   (\<exists>this' ls'.
      EventSubscriber_dispose (EventSubscriber_subscribe n2 cb2 (EventSubscriber_subscribe n1 cb1 (this, ls)))
        = Some (this', ls') \<and>
      target this' = None \<and> handler this' = None \<and>
      (\<forall>ev \<in> set (events this).
         NativeListener n1 ev (DirectListener cb1) False \<in> set ls' \<and>
         NativeListener n2 ev (DirectListener cb2) False \<notin> set ls') \<and>
      (\<forall>l \<in> set (snd (EventSubscriber_subscribe n2 cb2 (EventSubscriber_subscribe n1 cb1 (this, ls)))).
         nl_target l \<noteq> n2 \<longrightarrow> l \<in> set ls'))"
  by (auto simp: EventSubscriber_subscribe_def EventSubscriber_dispose_def Let_def
      remove_each_Some set_fold_add)

theorem subscribe_twice_witness:
  "(1::nat) \<noteq> 2 \<and>
   EventSubscriber_dispose
     (EventSubscriber_subscribe 2 (FunctionListener 8)
       (EventSubscriber_subscribe 1 (FunctionListener 7) (EventSubscriber_new [''input'', ''change''], [])))
     = Some (\<lparr>target = None, handler = None, events = [''input'', ''change'']\<rparr>,
             [NativeListener 1 ''input'' (DirectListener (FunctionListener 7)) False,
              NativeListener 1 ''change'' (DirectListener (FunctionListener 7)) False])"
  using subscribe_twice [of 1 2 "FunctionListener 8" "FunctionListener 7"
      "EventSubscriber_new [''input'', ''change'']" "[]"]
  by (simp add: EventSubscriber_subscribe_def EventSubscriber_dispose_def EventSubscriber_new_def
      dom_addEventListener_def dom_removeEventListener_def host_addEventListener_def
      host_removeEventListener_def)

section \<open>Properties of the event delegation\<close>

lemmas em_defs = EventManager_addEventListener_def EventManager_new_def ListenerTracker_new_def
  ListenerTracker_getLookup_def DelegateSubscription_new_def ListenerTracker_increment_def
  ListenerTracker_decrement_def DelegateSubscription_dispose_def defaultOptions_def
  host_addEventListener_def host_removeEventListener_def flatten_capture_def Let_def

subsection \<open>Disposing a subscription twice\<close>

text \<open>
  C2 does not hold of \<open>DelegateSubscription.dispose\<close>: it calls \<open>decrement\<close> without
  any guard, where \<open>ListenerTracker.dispose\<close> guards on \<open>count > 0\<close>. After one
  registration, two \<open>dispose\<close> calls on the subscription leave the tracker's count at
  \<open>-1\<close>, where one call leaves it at \<open>0\<close>. After two registrations, on nodes 1 and 2,
  one \<open>dispose\<close> of the first subscription leaves the count at \<open>1\<close> and the native
  listener attached; a second \<open>dispose\<close> of the same subscription takes the count to
  \<open>0\<close> and detaches the native listener, although the listener on node 2 is still
  registered with the tracker.
\<close>

theorem dispose_twice_decrements_twice:
  "count (trackers
      (DelegateSubscription_dispose (fst (EventManager_addEventListener 0 1 ''click'' (FunctionListener 0) None EventManager_new))
          (snd (EventManager_addEventListener 0 1 ''click'' (FunctionListener 0) None EventManager_new))) ! 0) = 0 \<and>
   count (trackers
      (DelegateSubscription_dispose (fst (EventManager_addEventListener 0 1 ''click'' (FunctionListener 0) None EventManager_new))
        (DelegateSubscription_dispose (fst (EventManager_addEventListener 0 1 ''click'' (FunctionListener 0) None EventManager_new))
          (snd (EventManager_addEventListener 0 1 ''click'' (FunctionListener 0) None EventManager_new)))) ! 0) = -1 \<and>
   count (trackers
      (DelegateSubscription_dispose (fst (EventManager_addEventListener 0 1 ''click'' (FunctionListener 0) None EventManager_new))
          (snd (EventManager_addEventListener 0 2 ''click'' (FunctionListener 1) None
          (snd (EventManager_addEventListener 0 1 ''click'' (FunctionListener 0) None EventManager_new))))) ! 0) = 1 \<and>
   native
      (DelegateSubscription_dispose (fst (EventManager_addEventListener 0 1 ''click'' (FunctionListener 0) None EventManager_new))
          (snd (EventManager_addEventListener 0 2 ''click'' (FunctionListener 1) None
          (snd (EventManager_addEventListener 0 1 ''click'' (FunctionListener 0) None EventManager_new))))) = [NativeListener 0 ''click'' (TrackerHandleEvent 0) False] \<and>
   count (trackers
      (DelegateSubscription_dispose (fst (EventManager_addEventListener 0 1 ''click'' (FunctionListener 0) None EventManager_new))
        (DelegateSubscription_dispose (fst (EventManager_addEventListener 0 1 ''click'' (FunctionListener 0) None EventManager_new))
          (snd (EventManager_addEventListener 0 2 ''click'' (FunctionListener 1) None
          (snd (EventManager_addEventListener 0 1 ''click'' (FunctionListener 0) None EventManager_new)))))) ! 0) = 0 \<and>
   native
      (DelegateSubscription_dispose (fst (EventManager_addEventListener 0 1 ''click'' (FunctionListener 0) None EventManager_new))
        (DelegateSubscription_dispose (fst (EventManager_addEventListener 0 1 ''click'' (FunctionListener 0) None EventManager_new))
          (snd (EventManager_addEventListener 0 2 ''click'' (FunctionListener 1) None
          (snd (EventManager_addEventListener 0 1 ''click'' (FunctionListener 0) None EventManager_new)))))) = [] \<and>
   registered
      (DelegateSubscription_dispose (fst (EventManager_addEventListener 0 1 ''click'' (FunctionListener 0) None EventManager_new))
        (DelegateSubscription_dispose (fst (EventManager_addEventListener 0 1 ''click'' (FunctionListener 0) None EventManager_new))
          (snd (EventManager_addEventListener 0 2 ''click'' (FunctionListener 1) None
          (snd (EventManager_addEventListener 0 1 ''click'' (FunctionListener 0) None EventManager_new)))))) 0 2 = Some (FunctionListener 1)"
  by (simp add: em_defs registered_def listener_at_def read_lookup_def)

subsection \<open>One tracker for both phases\<close>

text \<open>
  C5 does not hold of \<open>addEventListener\<close>: the tracker is looked up by event name and
  publisher only. After a capture registration and a bubble registration for the same
  publisher and event there is one tracker and one native listener, a capturing one;
  the second subscription belongs to that tracker, and its listener sits in the
  tracker's capture table.
\<close>

theorem one_tracker_for_both_phases:
  "length (trackers (snd
      (EventManager_addEventListener 0 2 ''click'' (FunctionListener 1) (Some \<lparr>capture = Some False\<rparr>)
        (snd (EventManager_addEventListener 0 1 ''click'' (FunctionListener 0)
               (Some \<lparr>capture = Some True\<rparr>) EventManager_new))))) = 1 \<and>
   native (snd
      (EventManager_addEventListener 0 2 ''click'' (FunctionListener 1) (Some \<lparr>capture = Some False\<rparr>)
        (snd (EventManager_addEventListener 0 1 ''click'' (FunctionListener 0)
               (Some \<lparr>capture = Some True\<rparr>) EventManager_new))))
     = [NativeListener 0 ''click'' (TrackerHandleEvent 0) True] \<and>
   sub_tracker (fst
      (EventManager_addEventListener 0 2 ''click'' (FunctionListener 1) (Some \<lparr>capture = Some False\<rparr>)
        (snd (EventManager_addEventListener 0 1 ''click'' (FunctionListener 0)
               (Some \<lparr>capture = Some True\<rparr>) EventManager_new)))) = 0 \<and>
   registered (snd
      (EventManager_addEventListener 0 2 ''click'' (FunctionListener 1) (Some \<lparr>capture = Some False\<rparr>)
        (snd (EventManager_addEventListener 0 1 ''click'' (FunctionListener 0)
               (Some \<lparr>capture = Some True\<rparr>) EventManager_new)))) 0 2 = Some (FunctionListener 1) \<and>
   capture (options (trackers (snd
      (EventManager_addEventListener 0 2 ''click'' (FunctionListener 1) (Some \<lparr>capture = Some False\<rparr>)
        (snd (EventManager_addEventListener 0 1 ''click'' (FunctionListener 0)
               (Some \<lparr>capture = Some True\<rparr>) EventManager_new)))) ! 0)) = Some True"
  by (simp add: em_defs registered_def listener_at_def read_lookup_def)

subsection \<open>The dispatch loop\<close>

lemma walk_Cons:
  "walk env lks heap name (n # path) ev =
     (case listener_at lks heap name n of
        None \<Rightarrow> walk env lks heap name path ev
      | Some l \<Rightarrow>
          (case invoke env l ev of
             None \<Rightarrow> ([(n, l)], Thrown)
           | Some ev' \<Rightarrow>
               if cancelBubble ev' then ([(n, l)], Returned ev')
               else ((n, l) # fst (walk env lks heap name path ev'),
                     snd (walk env lks heap name path ev'))))"
  by (simp add: listener_at_def split: option.splits prod.splits)

declare walk.simps(2) [simp del]

lemma walk_skip:
  "walk env lks heap name (filter (\<lambda>n. listener_at lks heap name n \<noteq> None) path) ev
     = walk env lks heap name path ev"
proof (induction path arbitrary: ev)
  case Nil
  then show ?case by simp
next
  case (Cons n path)
  show ?case
  proof (cases "listener_at lks heap name n")
    case None
    then show ?thesis using Cons by (simp add: walk_Cons)
  next
    case (Some l)
    then show ?thesis using Cons by (simp add: walk_Cons split: option.splits)
  qed
qed

lemma walk_before:
  assumes "listener_at lks heap name T = Some lT" and "R \<notin> set pre" and "R \<noteq> T"
    and "(R, l) \<in> set (fst (walk env lks heap name (pre @ T # post) ev))"
  shows "\<exists>xs ys. fst (walk env lks heap name (pre @ T # post) ev) = xs @ (T, lT) # ys
            \<and> (R, l) \<in> set ys"
  using assms(2,4)
proof (induction pre arbitrary: ev)
  case Nil
  then have "fst (walk env lks heap name (T # post) ev)
      = (T, lT) # tl (fst (walk env lks heap name (T # post) ev))"
    using assms(1,3) by (auto simp: walk_Cons split: option.splits if_splits)
  moreover from this Nil assms(3)
  have "(R, l) \<in> set (tl (fst (walk env lks heap name (T # post) ev)))"
    by (metis append_Nil fst_conv set_ConsD)
  ultimately show ?case by (metis append_Nil)
next
  case (Cons n pre)
  from Cons.prems have Rn: "R \<noteq> n" and Rpre: "R \<notin> set pre" by auto
  show ?case
  proof (cases "listener_at lks heap name n")
    case None
    with Cons Rpre show ?thesis by (simp add: walk_Cons)
  next
    case (Some ln)
    show ?thesis
    proof (cases "invoke env ln ev")
      case None
      with Some Cons.prems Rn show ?thesis by (simp add: walk_Cons)
    next
      case (Some ev')
      show ?thesis
      proof (cases "cancelBubble ev'")
        case True
        with Some \<open>listener_at lks heap name n = Some ln\<close> Cons.prems Rn
        show ?thesis by (simp add: walk_Cons)
      next
        case False
        with Some \<open>listener_at lks heap name n = Some ln\<close> Cons.prems Rn
        have "(R, l) \<in> set (fst (walk env lks heap name (pre @ T # post) ev'))"
          by (simp add: walk_Cons)
        from Cons.IH [OF Rpre this] obtain xs ys where
          "fst (walk env lks heap name (pre @ T # post) ev') = xs @ (T, lT) # ys" "(R, l) \<in> set ys"
          by blast
        with False Some \<open>listener_at lks heap name n = Some ln\<close>
        have "fst (walk env lks heap name ((n # pre) @ T # post) ev) = ((n, ln) # xs) @ (T, lT) # ys"
          by (simp add: walk_Cons)
        with \<open>(R, l) \<in> set ys\<close> show ?thesis by blast
      qed
    qed
  qed
qed

lemma walk_cancelled:
  assumes "listener_at lks heap name T = Some lT"
    and "\<And>e e'. invoke env lT e = Some e' \<Longrightarrow> cancelBubble e'"
  shows "fst ` set (fst (walk env lks heap name (pre @ T # post) ev)) \<subseteq> set pre \<union> {T}"
proof (induction pre arbitrary: ev)
  case Nil
  show ?case using assms by (auto simp: walk_Cons split: option.splits)
next
  case (Cons n pre)
  show ?case
  proof (cases "listener_at lks heap name n")
    case None
    then show ?thesis using Cons [of ev] by (auto simp: walk_Cons)
  next
    case (Some ln)
    show ?thesis
    proof (cases "invoke env ln ev")
      case None
      with Some show ?thesis by (simp add: walk_Cons)
    next
      case (Some ev')
      with \<open>listener_at lks heap name n = Some ln\<close> Cons [of ev'] show ?thesis
        by (auto simp: walk_Cons)
    qed
  qed
qed

lemma walk_complete:
  assumes "\<And>n l e. n \<in> set path \<Longrightarrow> listener_at lks heap name n = Some l \<Longrightarrow>
             \<exists>e'. invoke env l e = Some e' \<and> \<not> cancelBubble e'"
  shows "fst (walk env lks heap name path ev)
           = List.map_filter (\<lambda>n. map_option (Pair n) (listener_at lks heap name n)) path"
  using assms
proof (induction path arbitrary: ev)
  case Nil
  then show ?case by (simp add: List.map_filter_simps)
next
  case (Cons n path)
  have IH: "fst (walk env lks heap name path e)
           = List.map_filter (\<lambda>n. map_option (Pair n) (listener_at lks heap name n)) path" for e
  proof (rule Cons.IH)
    fix n' l e0
    assume "n' \<in> set path" "listener_at lks heap name n' = Some l"
    then show "\<exists>e'. invoke env l e0 = Some e' \<and> \<not> cancelBubble e'"
      using Cons.prems [of n' l e0] by simp
  qed
  show ?case
  proof (cases "listener_at lks heap name n")
    case None
    then show ?thesis using IH by (simp add: walk_Cons List.map_filter_simps)
  next
    case (Some l)
    from Cons.prems [of n l ev] Some obtain e' where "invoke env l ev = Some e'" "\<not> cancelBubble e'"
      by auto
    with Some IH show ?thesis by (simp add: walk_Cons List.map_filter_simps)
  qed
qed

lemma handleEvent_bubble:
  "capture (options (trackers s ! tid)) \<noteq> Some True \<Longrightarrow>
   ListenerTracker_handleEvent env tid ev s
     = walk env (bubbleLookups (trackers s ! tid)) (lookups s) (eventName (trackers s ! tid))
         (composedPath ev) ev"
  by (simp add: ListenerTracker_handleEvent_def Let_def)

lemma handleEvent_capture:
  "capture (options (trackers s ! tid)) = Some True \<Longrightarrow>
   ListenerTracker_handleEvent env tid ev s
     = walk env (captureLookups (trackers s ! tid)) (lookups s) (eventName (trackers s ! tid))
         (rev (composedPath ev)) ev"
  by (simp add: ListenerTracker_handleEvent_def Let_def)

lemma registered_bubble:
  "capture (options (trackers s ! tid)) \<noteq> Some True \<Longrightarrow>
   registered s tid n
     = listener_at (bubbleLookups (trackers s ! tid)) (lookups s) (eventName (trackers s ! tid)) n"
  by (simp add: registered_def Let_def)

lemma registered_capture:
  "capture (options (trackers s ! tid)) = Some True \<Longrightarrow>
   registered s tid n
     = listener_at (captureLookups (trackers s ! tid)) (lookups s) (eventName (trackers s ! tid)) n"
  by (simp add: registered_def Let_def)

lemmas dispatch_defs = ListenerTracker_handleEvent_def registered_def listener_at_def
  read_lookup_def walk.simps

text \<open>
  C3. A bubble-phase tracker walks the propagation path from the target outwards. With
  listeners registered on a node \<open>T\<close> and on a later node \<open>R\<close> of the path (an ancestor of
  \<open>T\<close>): whenever the listener of \<open>R\<close> is invoked, the listener of \<open>T\<close> was invoked before
  it, and when \<open>T\<close> is the event's target, the first node of the path, its listener is
  the first one invoked; if the listener of \<open>T\<close> always leaves the cancel-bubble flag set, the listener of
  \<open>R\<close> is not invoked; the dispatch is the walk over only those nodes of the path that
  hold a listener, so a node without a lookup record or without an entry is passed
  over; and when no listener on the path throws or leaves the flag set, every listener
  registered on the path is invoked, in path order.
\<close>

theorem bubble_dispatch:
  assumes bubble: "capture (options (trackers s ! tid)) \<noteq> Some True"
    and path: "composedPath ev = pre @ T # mid @ R # post"
    and dist: "distinct (composedPath ev)"
    and T: "registered s tid T = Some lT"
    and R: "registered s tid R = Some lR"
  shows "((R, lR) \<in> set (fst (ListenerTracker_handleEvent env tid ev s)) \<longrightarrow>
           (\<exists>xs ys zs. fst (ListenerTracker_handleEvent env tid ev s)
                          = xs @ (T, lT) # ys @ (R, lR) # zs)) \<and>
         (pre = [] \<longrightarrow>
           (\<exists>calls. fst (ListenerTracker_handleEvent env tid ev s) = (T, lT) # calls)) \<and>
         ((\<forall>e e'. invoke env lT e = Some e' \<longrightarrow> cancelBubble e') \<longrightarrow>
           R \<notin> fst ` set (fst (ListenerTracker_handleEvent env tid ev s))) \<and>
         ListenerTracker_handleEvent env tid ev s
           = walk env (bubbleLookups (trackers s ! tid)) (lookups s) (eventName (trackers s ! tid))
               (filter (\<lambda>n. registered s tid n \<noteq> None) (composedPath ev)) ev \<and>
         ((\<forall>n \<in> set (composedPath ev). \<forall>l e. registered s tid n = Some l \<longrightarrow>
              (\<exists>e'. invoke env l e = Some e' \<and> \<not> cancelBubble e')) \<longrightarrow>
           fst (ListenerTracker_handleEvent env tid ev s) = registrations s tid (composedPath ev))"
proof -
  let ?lks = "bubbleLookups (trackers s ! tid)"
  let ?name = "eventName (trackers s ! tid)"
  let ?H = "ListenerTracker_handleEvent env tid ev s"
  have H: "?H = walk env ?lks (lookups s) ?name (pre @ T # mid @ R # post) ev"
    using bubble path by (simp add: handleEvent_bubble)
  have reg: "registered s tid n = listener_at ?lks (lookups s) ?name n" for n
    using bubble by (rule registered_bubble)
  from dist path have RT: "R \<notin> set pre" "R \<noteq> T" by auto
  have order: "\<exists>xs ys zs. fst ?H = xs @ (T, lT) # ys @ (R, lR) # zs"
    if "(R, lR) \<in> set (fst ?H)"
  proof -
    from walk_before [OF T [unfolded reg] RT that [unfolded H]]
    obtain xs ys where "fst ?H = xs @ (T, lT) # ys" "(R, lR) \<in> set ys"
      unfolding H by blast
    then show ?thesis by (metis split_list)
  qed
  have first: "\<exists>calls. fst ?H = (T, lT) # calls" if "pre = []"
    using that T [unfolded reg] unfolding H
    by (auto simp: walk_Cons split: option.splits)
  have cancel: "R \<notin> fst ` set (fst ?H)"
    if "\<forall>e e'. invoke env lT e = Some e' \<longrightarrow> cancelBubble e'"
    using walk_cancelled [OF T [unfolded reg], of env pre "mid @ R # post" ev] that RT
    unfolding H by auto
  have skip: "?H = walk env ?lks (lookups s) ?name
                     (filter (\<lambda>n. registered s tid n \<noteq> None) (composedPath ev)) ev"
    unfolding reg handleEvent_bubble [OF bubble] by (rule walk_skip [symmetric])
  have complete: "fst ?H = registrations s tid (composedPath ev)"
    if "\<forall>n \<in> set (composedPath ev). \<forall>l e. registered s tid n = Some l \<longrightarrow>
              (\<exists>e'. invoke env l e = Some e' \<and> \<not> cancelBubble e')"
  proof -
    have "fst (walk env ?lks (lookups s) ?name (composedPath ev) ev)
            = List.map_filter (\<lambda>n. map_option (Pair n) (listener_at ?lks (lookups s) ?name n))
                (composedPath ev)"
      by (rule walk_complete) (use that reg in auto)
    then show ?thesis
      using bubble by (simp add: handleEvent_bubble registrations_def reg)
  qed
  from order first cancel skip complete show ?thesis by blast
qed

theorem bubble_dispatch_witness:
  "fst (ListenerTracker_handleEvent
          \<lparr>call_function = (\<lambda>k e. Some e), call_handleEvent = (\<lambda>k e. Some e)\<rparr> 0
          \<lparr>composedPath = [1, 2, 3, 4], cancelBubble = False\<rparr>
          (snd (EventManager_addEventListener 0 3 ''click'' (FunctionListener 1) None
            (snd (EventManager_addEventListener 0 1 ''click'' (FunctionListener 0) None EventManager_new)))))
     = [(1, FunctionListener 0), (3, FunctionListener 1)] \<and>
   fst (ListenerTracker_handleEvent
          \<lparr>call_function = (\<lambda>k e. Some (e\<lparr>cancelBubble := True\<rparr>)), call_handleEvent = (\<lambda>k e. Some e)\<rparr> 0
          \<lparr>composedPath = [1, 2, 3, 4], cancelBubble = False\<rparr>
          (snd (EventManager_addEventListener 0 3 ''click'' (FunctionListener 1) None
            (snd (EventManager_addEventListener 0 1 ''click'' (FunctionListener 0) None EventManager_new)))))
     = [(1, FunctionListener 0)]"
  using bubble_dispatch [where tid = 0 and pre = "[]" and T = 1 and mid = "[2]" and R = 3
      and post = "[4]" and lT = "FunctionListener 0" and lR = "FunctionListener 1"
      and ev = "\<lparr>composedPath = [1, 2, 3, 4], cancelBubble = False\<rparr>"
      and env = "\<lparr>call_function = (\<lambda>k e. Some e), call_handleEvent = (\<lambda>k e. Some e)\<rparr>"
      and s = "snd (EventManager_addEventListener 0 3 ''click'' (FunctionListener 1) None
            (snd (EventManager_addEventListener 0 1 ''click'' (FunctionListener 0) None EventManager_new)))"]
  by (simp add: em_defs dispatch_defs)

text \<open>
  C4. A capture-phase tracker walks the reversed propagation path, from the root
  towards the target. With listeners registered on a node \<open>T\<close> and on a later node \<open>R\<close>
  of the path (an ancestor of \<open>T\<close>): whenever the listener of \<open>T\<close> is invoked, the
  listener of \<open>R\<close> was invoked before it; and when no listener on the path throws or
  leaves the cancel-bubble flag set, every listener registered on the path is invoked,
  in the order of the reversed path.
\<close>

theorem capture_dispatch:
  assumes cap: "capture (options (trackers s ! tid)) = Some True"
    and path: "composedPath ev = pre @ T # mid @ R # post"
    and dist: "distinct (composedPath ev)"
    and T: "registered s tid T = Some lT"
    and R: "registered s tid R = Some lR"
  shows "ListenerTracker_handleEvent env tid ev s
           = walk env (captureLookups (trackers s ! tid)) (lookups s) (eventName (trackers s ! tid))
               (rev (composedPath ev)) ev \<and>
         ((T, lT) \<in> set (fst (ListenerTracker_handleEvent env tid ev s)) \<longrightarrow>
           (\<exists>xs ys zs. fst (ListenerTracker_handleEvent env tid ev s)
                          = xs @ (R, lR) # ys @ (T, lT) # zs)) \<and>
         ((\<forall>n \<in> set (composedPath ev). \<forall>l e. registered s tid n = Some l \<longrightarrow>
              (\<exists>e'. invoke env l e = Some e' \<and> \<not> cancelBubble e')) \<longrightarrow>
           fst (ListenerTracker_handleEvent env tid ev s)
             = registrations s tid (rev (composedPath ev)))"
proof -
  let ?lks = "captureLookups (trackers s ! tid)"
  let ?name = "eventName (trackers s ! tid)"
  let ?H = "ListenerTracker_handleEvent env tid ev s"
  have H0: "?H = walk env ?lks (lookups s) ?name (rev (composedPath ev)) ev"
    using cap by (rule handleEvent_capture)
  have H: "?H = walk env ?lks (lookups s) ?name (rev post @ R # rev mid @ T # rev pre) ev"
    using cap path by (simp add: handleEvent_capture)
  have reg: "registered s tid n = listener_at ?lks (lookups s) ?name n" for n
    using cap by (rule registered_capture)
  from dist path have TR: "T \<notin> set (rev post)" "T \<noteq> R" by auto
  have order: "\<exists>xs ys zs. fst ?H = xs @ (R, lR) # ys @ (T, lT) # zs"
    if "(T, lT) \<in> set (fst ?H)"
  proof -
    from walk_before [OF R [unfolded reg] TR that [unfolded H]]
    obtain xs ys where "fst ?H = xs @ (R, lR) # ys" "(T, lT) \<in> set ys"
      unfolding H by blast
    then show ?thesis by (metis split_list)
  qed
  have complete: "fst ?H = registrations s tid (rev (composedPath ev))"
    if "\<forall>n \<in> set (composedPath ev). \<forall>l e. registered s tid n = Some l \<longrightarrow>
              (\<exists>e'. invoke env l e = Some e' \<and> \<not> cancelBubble e')"
  proof -
    have "fst (walk env ?lks (lookups s) ?name (rev (composedPath ev)) ev)
            = List.map_filter (\<lambda>n. map_option (Pair n) (listener_at ?lks (lookups s) ?name n))
                (rev (composedPath ev))"
      by (rule walk_complete) (use that reg in auto)
    then show ?thesis
      using cap by (simp add: handleEvent_capture registrations_def reg)
  qed
  from H0 order complete show ?thesis by blast
qed

theorem capture_dispatch_witness:
  "fst (ListenerTracker_handleEvent
          \<lparr>call_function = (\<lambda>k e. Some e), call_handleEvent = (\<lambda>k e. Some e)\<rparr> 0
          \<lparr>composedPath = [1, 2, 3, 4], cancelBubble = False\<rparr>
          (snd (EventManager_addEventListener 0 3 ''click'' (FunctionListener 1) (Some \<lparr>capture = Some True\<rparr>)
            (snd (EventManager_addEventListener 0 1 ''click'' (FunctionListener 0)
                    (Some \<lparr>capture = Some True\<rparr>) EventManager_new)))))
     = [(3, FunctionListener 1), (1, FunctionListener 0)]"
  using capture_dispatch [where tid = 0 and pre = "[]" and T = 1 and mid = "[2]" and R = 3
      and post = "[4]" and lT = "FunctionListener 0" and lR = "FunctionListener 1"
      and ev = "\<lparr>composedPath = [1, 2, 3, 4], cancelBubble = False\<rparr>"
      and env = "\<lparr>call_function = (\<lambda>k e. Some e), call_handleEvent = (\<lambda>k e. Some e)\<rparr>"
      and s = "snd (EventManager_addEventListener 0 3 ''click'' (FunctionListener 1) (Some \<lparr>capture = Some True\<rparr>)
            (snd (EventManager_addEventListener 0 1 ''click'' (FunctionListener 0)
                    (Some \<lparr>capture = Some True\<rparr>) EventManager_new)))"]
  by (simp add: em_defs dispatch_defs)

subsection \<open>What each operation does to counts and attached listeners\<close>

lemma increment_effect:
  assumes "tid < length (trackers s)"
  shows "length (trackers (ListenerTracker_increment tid s)) = length (trackers s)"
    and "trackerMaps (ListenerTracker_increment tid s) = trackerMaps s"
    and "lookups (ListenerTracker_increment tid s) = lookups s"
    and "listener_of (ListenerTracker_increment tid s) i = listener_of s i"
    and "count_of (ListenerTracker_increment tid s) i
           = (if i = tid then count_of s tid + 1 else count_of s i)"
    and "native (ListenerTracker_increment tid s)
           = (if count_of s tid = 0
              then (if listener_of s tid \<in> set (native s) then native s
                    else native s @ [listener_of s tid])
              else native s)"
  using assms
  by (auto simp: ListenerTracker_increment_def Let_def listener_of_def count_of_def
      tracker_listener_def host_addEventListener_def nth_list_update)

lemma decrement_effect:
  assumes "tid < length (trackers s)"
  shows "length (trackers (ListenerTracker_decrement tid s)) = length (trackers s)"
    and "trackerMaps (ListenerTracker_decrement tid s) = trackerMaps s"
    and "lookups (ListenerTracker_decrement tid s) = lookups s"
    and "listener_of (ListenerTracker_decrement tid s) i = listener_of s i"
    and "count_of (ListenerTracker_decrement tid s) i
           = (if i = tid then count_of s tid - 1 else count_of s i)"
    and "native (ListenerTracker_decrement tid s)
           = (if count_of s tid = 1 then removeAll (listener_of s tid) (native s) else native s)"
  using assms
  by (auto simp: ListenerTracker_decrement_def Let_def listener_of_def count_of_def
      tracker_listener_def host_removeEventListener_def nth_list_update)

lemma dispose_effect:
  shows "length (trackers (ListenerTracker_dispose tid s)) = length (trackers s)"
    and "trackerMaps (ListenerTracker_dispose tid s) = trackerMaps s"
    and "listener_of (ListenerTracker_dispose tid s) i = listener_of s i"
    and "count_of (ListenerTracker_dispose tid s) i
           = (if i = tid \<and> tid < length (trackers s) then min 0 (count_of s tid) else count_of s i)"
    and "native (ListenerTracker_dispose tid s)
           = (if tid < length (trackers s) \<and> 0 < count_of s tid
              then removeAll (listener_of s tid) (native s) else native s)"
  by (auto simp: ListenerTracker_dispose_def Let_def listener_of_def count_of_def
      tracker_listener_def host_removeEventListener_def nth_list_update)

lemma getLookup_effect:
  shows "length (trackers (snd (ListenerTracker_getLookup tid tgt s))) = length (trackers s)"
    and "trackerMaps (snd (ListenerTracker_getLookup tid tgt s)) = trackerMaps s"
    and "native (snd (ListenerTracker_getLookup tid tgt s)) = native s"
    and "listener_of (snd (ListenerTracker_getLookup tid tgt s)) i = listener_of s i"
    and "count_of (snd (ListenerTracker_getLookup tid tgt s)) i = count_of s i"
  by (cases "tid < length (trackers s)";
      auto simp: ListenerTracker_getLookup_def Let_def listener_of_def count_of_def
        tracker_listener_def nth_list_update list_update_beyond split: option.splits)+

lemma register_effect:
  assumes "tid < length (trackers s)"
  shows "sub_tracker (fst (register tid tgt name cb s)) = tid"
    and "length (trackers (snd (register tid tgt name cb s))) = length (trackers s)"
    and "trackerMaps (snd (register tid tgt name cb s)) = trackerMaps s"
    and "listener_of (snd (register tid tgt name cb s)) i = listener_of s i"
    and "count_of (snd (register tid tgt name cb s)) i
           = (if i = tid then count_of s tid + 1 else count_of s i)"
    and "native (snd (register tid tgt name cb s))
           = (if count_of s tid = 0
              then (if listener_of s tid \<in> set (native s) then native s
                    else native s @ [listener_of s tid])
              else native s)"
proof -
  obtain lookup s2 where g: "ListenerTracker_getLookup tid tgt s = (lookup, s2)"
    by (cases "ListenerTracker_getLookup tid tgt s")
  from getLookup_effect [of tid tgt s] g
  have s2: "length (trackers s2) = length (trackers s)" "trackerMaps s2 = trackerMaps s"
    "native s2 = native s" "\<And>i. listener_of s2 i = listener_of s i"
    "\<And>i. count_of s2 i = count_of s i"
    by simp_all
  have r: "register tid tgt name cb s = DelegateSubscription_new tid lookup name cb s2"
    by (simp add: register_def g)
  have l: "listener_of (s'\<lparr>lookups := x\<rparr>) i = listener_of s' i"
    "count_of (s'\<lparr>lookups := x\<rparr>) i = count_of s' i" for s' x i
    by (simp_all add: listener_of_def count_of_def)
  from assms s2 have t: "tid < length (trackers s2)" by simp
  show "sub_tracker (fst (register tid tgt name cb s)) = tid"
    by (simp add: r DelegateSubscription_new_def Let_def)
  show "length (trackers (snd (register tid tgt name cb s))) = length (trackers s)"
    by (simp add: r DelegateSubscription_new_def Let_def increment_effect [OF t] s2)
  show "trackerMaps (snd (register tid tgt name cb s)) = trackerMaps s"
    by (simp add: r DelegateSubscription_new_def Let_def increment_effect [OF t] s2)
  show "listener_of (snd (register tid tgt name cb s)) i = listener_of s i"
    by (simp add: r DelegateSubscription_new_def Let_def l increment_effect [OF t] s2)
  show "count_of (snd (register tid tgt name cb s)) i
           = (if i = tid then count_of s tid + 1 else count_of s i)"
    by (simp add: r DelegateSubscription_new_def Let_def l increment_effect [OF t] s2)
  show "native (snd (register tid tgt name cb s))
           = (if count_of s tid = 0
              then (if listener_of s tid \<in> set (native s) then native s
                    else native s @ [listener_of s tid])
              else native s)"
    by (simp add: r DelegateSubscription_new_def Let_def increment_effect [OF t] s2)
qed

lemma subscription_dispose_effect:
  assumes "sub_tracker sub < length (trackers s)"
  shows "length (trackers (DelegateSubscription_dispose sub s)) = length (trackers s)"
    and "trackerMaps (DelegateSubscription_dispose sub s) = trackerMaps s"
    and "listener_of (DelegateSubscription_dispose sub s) i = listener_of s i"
    and "count_of (DelegateSubscription_dispose sub s) i
           = (if i = sub_tracker sub then count_of s i - 1 else count_of s i)"
    and "native (DelegateSubscription_dispose sub s)
           = (if count_of s (sub_tracker sub) = 1
              then removeAll (listener_of s (sub_tracker sub)) (native s) else native s)"
proof -
  have l: "listener_of (s'\<lparr>lookups := x\<rparr>) i = listener_of s' i"
    "count_of (s'\<lparr>lookups := x\<rparr>) i = count_of s' i" for s' x i
    by (simp_all add: listener_of_def count_of_def)
  note d = decrement_effect [OF assms]
  show "length (trackers (DelegateSubscription_dispose sub s)) = length (trackers s)"
    by (simp add: DelegateSubscription_dispose_def Let_def d)
  show "trackerMaps (DelegateSubscription_dispose sub s) = trackerMaps s"
    by (simp add: DelegateSubscription_dispose_def Let_def d)
  show "listener_of (DelegateSubscription_dispose sub s) i = listener_of s i"
    by (simp add: DelegateSubscription_dispose_def Let_def l d)
  show "count_of (DelegateSubscription_dispose sub s) i
           = (if i = sub_tracker sub then count_of s i - 1 else count_of s i)"
    by (simp add: DelegateSubscription_dispose_def Let_def l d)
  show "native (DelegateSubscription_dispose sub s)
           = (if count_of s (sub_tracker sub) = 1
              then removeAll (listener_of s (sub_tracker sub)) (native s) else native s)"
    by (simp add: DelegateSubscription_dispose_def Let_def d)
qed

lemma add_existing:
  "tracker_for s name pub = Some tid \<Longrightarrow>
   EventManager_addEventListener pub tgt name cb opts s = register tid tgt name cb s"
  by (auto simp: tracker_for_def EventManager_addEventListener_def register_def
      split: option.splits)

lemma add_fresh:
  "tracker_for s name pub = None \<Longrightarrow>
   EventManager_addEventListener pub tgt name cb opts s
     = register (length (trackers s)) tgt name cb (create_tracker pub name opts s)"
  by (auto simp: tracker_for_def EventManager_addEventListener_def register_def create_tracker_def
      Let_def split: option.splits)

lemma update_new_key: "k \<notin> fst ` set al \<Longrightarrow> AList.update k v al = al @ [(k, v)]"
  by (induction al) auto

lemma update_extend_values:
  "map_of al k = Some v \<Longrightarrow>
   set (concat (map snd (AList.update k (v @ w) al))) = set (concat (map snd al)) \<union> set w"
proof (induction al)
  case Nil
  then show ?case by simp
next
  case (Cons p al)
  obtain k' v' where p: "p = (k', v')" by (cases p)
  show ?case
  proof (cases "k' = k")
    case True
    with Cons.prems p have "v' = v" by simp
    with True p show ?thesis by (simp add: Un_assoc Un_commute Un_left_commute)
  next
    case False
    with Cons.prems p have "map_of al k = Some v" by simp
    from Cons.IH [OF this] False p show ?thesis by (simp add: Un_assoc)
  qed
qed

lemma update_last_key:
  "k \<notin> fst ` set al \<Longrightarrow> AList.update k v (al @ [(k, v0)]) = al @ [(k, v)]"
  by (induction al) auto

lemma tracker_for_tracked: "tracker_for s name pub = Some tid \<Longrightarrow> tid \<in> tracked s"
proof -
  assume "tracker_for s name pub = Some tid"
  then obtain m where "map_of (trackerMaps s) name = Some m" "map_of m pub = Some tid"
    by (auto simp: tracker_for_def split: option.splits)
  then have "(name, m) \<in> set (trackerMaps s)" "(pub, tid) \<in> set m"
    by (auto dest: map_of_SomeD)
  then show ?thesis
    unfolding tracked_def by force
qed

lemma create_tracker_effect:
  assumes "tracker_for s name pub = None"
  shows "trackers (create_tracker pub name opts s) = trackers s @ [ListenerTracker_new pub name opts]"
    and "native (create_tracker pub name opts s) = native s"
    and "tracked (create_tracker pub name opts s) = insert (length (trackers s)) (tracked s)"
    and "tracker_for (create_tracker pub name opts s) name pub = Some (length (trackers s))"
proof -
  show "trackers (create_tracker pub name opts s) = trackers s @ [ListenerTracker_new pub name opts]"
    by (simp add: create_tracker_def Let_def split: option.splits)
  show "native (create_tracker pub name opts s) = native s"
    by (simp add: create_tracker_def Let_def split: option.splits)
  show "tracker_for (create_tracker pub name opts s) name pub = Some (length (trackers s))"
    by (simp add: create_tracker_def tracker_for_def Let_def update_conv' split: option.splits)
  show "tracked (create_tracker pub name opts s) = insert (length (trackers s)) (tracked s)"
  proof (cases "map_of (trackerMaps s) name")
    case None
    then have "name \<notin> fst ` set (trackerMaps s)"
      by (simp add: map_of_eq_None_iff)
    then have "AList.update name [(pub, length (trackers s))] (trackerMaps s @ [(name, [])])
                 = trackerMaps s @ [(name, [(pub, length (trackers s))])]"
      by (rule update_last_key)
    with None show ?thesis
      by (simp add: create_tracker_def tracked_def Let_def)
  next
    case (Some m)
    with assms have "map_of m pub = None"
      by (simp add: tracker_for_def)
    then have "AList.update pub (length (trackers s)) m = m @ [(pub, length (trackers s))]"
      by (simp add: update_new_key map_of_eq_None_iff)
    with Some update_extend_values [OF Some, of "[(pub, length (trackers s))]"]
    show ?thesis
      by (simp add: create_tracker_def tracked_def Let_def image_Un)
  qed
qed

lemma create_tracker_old:
  assumes "tracker_for s name pub = None" and "i < length (trackers s)"
  shows "listener_of (create_tracker pub name opts s) i = listener_of s i"
    and "count_of (create_tracker pub name opts s) i = count_of s i"
  using assms(2)
  by (simp_all add: create_tracker_effect(1) [OF assms(1)] listener_of_def count_of_def nth_append)

lemma create_tracker_new:
  assumes "tracker_for s name pub = None"
  shows "listener_of (create_tracker pub name opts s) (length (trackers s))
           = NativeListener pub name (TrackerHandleEvent (length (trackers s)))
               (flatten_capture (case opts of None \<Rightarrow> defaultOptions | Some x \<Rightarrow> x))"
    and "count_of (create_tracker pub name opts s) (length (trackers s)) = 0"
  by (simp_all add: create_tracker_effect(1) [OF assms] listener_of_def count_of_def
      tracker_listener_def ListenerTracker_new_def)

lemma listener_of_callback [simp]: "nl_callback (listener_of s tid) = TrackerHandleEvent tid"
  by (simp add: listener_of_def tracker_listener_def)

subsection \<open>Disposing the manager\<close>

lemma dispose_trackerMaps_flat:
  "dispose_trackerMaps tm s
     = (map (\<lambda>(name, m). (name, [])) tm,
        fold ListenerTracker_dispose (map snd (concat (map snd tm))) s)"
proof (induction tm arbitrary: s)
  case Nil
  then show ?case by simp
next
  case (Cons p tm)
  obtain name m where p: "p = (name, m)" by (cases p)
  have "fold (\<lambda>(p, tid). ListenerTracker_dispose tid) m s = fold ListenerTracker_dispose (map snd m) s"
    by (simp add: fold_map comp_def case_prod_unfold)
  with Cons p show ?case by simp
qed

lemma dispose_list_effect:
  shows "length (trackers (fold ListenerTracker_dispose D s)) = length (trackers s)"
    and "trackerMaps (fold ListenerTracker_dispose D s) = trackerMaps s"
    and "listener_of (fold ListenerTracker_dispose D s) i = listener_of s i"
    and "count_of (fold ListenerTracker_dispose D s) i
           = (if i \<in> set D \<and> i < length (trackers s) then min 0 (count_of s i) else count_of s i)"
  by (induction D arbitrary: s) (auto simp: dispose_effect)

lemma dispose_list_native:
  "native (fold ListenerTracker_dispose D s)
     = filter (\<lambda>l. \<forall>tid \<in> set D. tid < length (trackers s) \<and> 0 < count_of s tid
                      \<longrightarrow> l \<noteq> listener_of s tid) (native s)"
proof (induction D arbitrary: s)
  case Nil
  then show ?case by simp
next
  case (Cons t D)
  have "native (fold ListenerTracker_dispose (t # D) s)
          = filter (\<lambda>l. \<forall>tid \<in> set D. tid < length (trackers s) \<and>
                0 < count_of (ListenerTracker_dispose t s) tid \<longrightarrow> l \<noteq> listener_of s tid)
              (native (ListenerTracker_dispose t s))"
    by (simp add: Cons dispose_effect(1,3))
  also have "\<dots> = filter (\<lambda>l. \<forall>tid \<in> set (t # D). tid < length (trackers s) \<and> 0 < count_of s tid
                      \<longrightarrow> l \<noteq> listener_of s tid) (native s)"
    by (auto simp: dispose_effect(4,5) removeAll_filter_not_eq intro!: filter_cong)
  finally show ?case .
qed

lemma dispose_list_cleared:
  "i \<in> set D \<Longrightarrow> i < length (trackers s) \<Longrightarrow>
   captureLookups (trackers (fold ListenerTracker_dispose D s) ! i) = Map.empty \<and>
   bubbleLookups (trackers (fold ListenerTracker_dispose D s) ! i) = Map.empty"
proof (induction D arbitrary: s)
  case Nil
  then show ?case by simp
next
  case (Cons t D)
  have keep: "captureLookups (trackers (fold ListenerTracker_dispose D' s') ! i) = Map.empty \<and>
       bubbleLookups (trackers (fold ListenerTracker_dispose D' s') ! i) = Map.empty"
    if "captureLookups (trackers s' ! i) = Map.empty \<and> bubbleLookups (trackers s' ! i) = Map.empty"
    for D' s'
    using that
  proof (induction D' arbitrary: s')
    case Nil
    then show ?case by simp
  next
    case (Cons u D')
    have "captureLookups (trackers (ListenerTracker_dispose u s') ! i) = Map.empty \<and>
          bubbleLookups (trackers (ListenerTracker_dispose u s') ! i) = Map.empty"
      using Cons.prems by (auto simp: ListenerTracker_dispose_def Let_def nth_list_update)
    from Cons.IH [OF this] show ?case by simp
  qed
  show ?case
  proof (cases "i = t")
    case True
    with Cons.prems have "captureLookups (trackers (ListenerTracker_dispose t s) ! i) = Map.empty \<and>
          bubbleLookups (trackers (ListenerTracker_dispose t s) ! i) = Map.empty"
      by (auto simp: ListenerTracker_dispose_def Let_def nth_list_update)
    from keep [OF this] show ?thesis by simp
  next
    case False
    with Cons.prems have "i \<in> set D" "i < length (trackers (ListenerTracker_dispose t s))"
      by (simp_all add: dispose_effect(1))
    from Cons.IH [OF this] show ?thesis by simp
  qed
qed

lemma EventManager_dispose_eq:
  "EventManager_dispose s
     = (fold ListenerTracker_dispose (map snd (concat (map snd (trackerMaps s)))) s)
         \<lparr>trackerMaps := map (\<lambda>(name, m). (name, [])) (trackerMaps s)\<rparr>"
  by (simp add: EventManager_dispose_def dispose_trackerMaps_flat)

lemma EventManager_dispose_native:
  assumes "consistent s"
  shows "native (EventManager_dispose s) = []"
proof -
  define D where "D = map snd (concat (map snd (trackerMaps s)))"
  have D: "set D = tracked s" by (simp add: D_def tracked_def)
  have "\<not> (\<forall>tid \<in> set D. tid < length (trackers s) \<and> 0 < count_of s tid
              \<longrightarrow> l \<noteq> listener_of s tid)" if "l \<in> set (native s)" for l
    using assms that unfolding consistent_def D by blast
  then have "native (fold ListenerTracker_dispose D s) = []"
    unfolding dispose_list_native by (simp add: filter_empty_conv)
  then show ?thesis
    by (simp add: EventManager_dispose_eq D_def)
qed

lemma EventManager_dispose_tracked: "tracked (EventManager_dispose s) = {}"
  by (induction "trackerMaps s" arbitrary: s)
     (auto simp: EventManager_dispose_eq tracked_def)

subsection \<open>The invariant holds after every program\<close>

lemma consistent_new: "consistent EventManager_new"
  by (simp add: consistent_def EventManager_new_def tracked_def)

lemma consistent_add:
  assumes "consistent s"
  shows "consistent (snd (EventManager_addEventListener pub tgt name cb opts s))"
proof (cases "tracker_for s name pub")
  case (Some tid)
  then have tr: "tid \<in> tracked s" by (rule tracker_for_tracked)
  with assms have lt: "tid < length (trackers s)" by (simp add: consistent_def)
  note e = register_effect [OF lt, of tgt name cb]
  let ?s' = "snd (register tid tgt name cb s)"
  have t': "tracked ?s' = tracked s" by (simp add: tracked_def e)
  have "\<exists>t \<in> tracked s. 0 < count_of ?s' t \<and> l = listener_of ?s' t" if "l \<in> set (native ?s')" for l
  proof (cases "l \<in> set (native s)")
    case True
    with assms obtain t where "t \<in> tracked s" "0 < count_of s t" "l = listener_of s t"
      unfolding consistent_def by blast
    then show ?thesis by (intro bexI [of _ t]) (auto simp: e)
  next
    case False
    with that have "l = listener_of s tid" "count_of s tid = 0"
      by (auto simp: e split: if_splits)
    with tr show ?thesis by (auto simp: e)
  qed
  with assms show ?thesis
    by (simp add: add_existing [OF Some] consistent_def t' e)
next
  case None
  let ?tid = "length (trackers s)"
  let ?s1 = "create_tracker pub name opts s"
  note c = create_tracker_effect [OF None, of opts]
  have lt: "?tid < length (trackers ?s1)" by (simp add: c)
  note e = register_effect [OF lt, of tgt name cb]
  let ?s' = "snd (register ?tid tgt name cb ?s1)"
  have "tracked ?s' = tracked ?s1" by (simp add: tracked_def e)
  then have t': "tracked ?s' = insert ?tid (tracked s)" by (simp only: c)
  have len: "length (trackers ?s') = Suc ?tid" by (simp add: e c)
  have old: "listener_of ?s' i = listener_of s i" "count_of ?s1 i = count_of s i"
    if "i < ?tid" for i
    using that by (simp_all add: e create_tracker_old [OF None])
  have "\<exists>t \<in> insert ?tid (tracked s). 0 < count_of ?s' t \<and> l = listener_of ?s' t"
    if "l \<in> set (native ?s')" for l
  proof (cases "l \<in> set (native s)")
    case True
    with assms obtain t where t: "t \<in> tracked s" "0 < count_of s t" "l = listener_of s t"
      unfolding consistent_def by blast
    with assms have lt: "t < ?tid" by (simp add: consistent_def)
    with t have "0 < count_of ?s' t" by (simp add: e old)
    moreover from t lt have "l = listener_of ?s' t" by (simp add: old)
    ultimately show ?thesis using t(1) by blast
  next
    case False
    with that have "l = listener_of ?s1 ?tid"
      by (auto simp: e c split: if_splits)
    then have "l = listener_of ?s' ?tid" by (simp add: e)
    moreover have "0 < count_of ?s' ?tid" by (simp add: e create_tracker_new [OF None])
    ultimately show ?thesis by blast
  qed
  moreover have "\<forall>t \<in> insert ?tid (tracked s). t < Suc ?tid"
    using assms by (auto simp: consistent_def less_Suc_eq)
  ultimately show ?thesis
    by (simp add: add_fresh [OF None] consistent_def t' len)
qed

lemma consistent_lookups [simp]: "consistent (s\<lparr>lookups := x\<rparr>) = consistent s"
  by (simp add: consistent_def tracked_def count_of_def listener_of_def)

lemma consistent_subscription_dispose:
  assumes "consistent s"
  shows "consistent (DelegateSubscription_dispose sub s)"
proof (cases "sub_tracker sub < length (trackers s)")
  case True
  note e = subscription_dispose_effect [OF True]
  let ?s' = "DelegateSubscription_dispose sub s"
  have t': "tracked ?s' = tracked s" by (simp add: tracked_def e)
  have "\<exists>t \<in> tracked s. 0 < count_of ?s' t \<and> l = listener_of ?s' t" if "l \<in> set (native ?s')" for l
  proof -
    from that have l: "l \<in> set (native s)"
      and ne: "count_of s (sub_tracker sub) = 1 \<Longrightarrow> l \<noteq> listener_of s (sub_tracker sub)"
      by (auto simp: e split: if_splits)
    from l assms obtain t where t: "t \<in> tracked s" "0 < count_of s t" "l = listener_of s t"
      unfolding consistent_def by blast
    have "count_of s t \<noteq> 1" if "t = sub_tracker sub"
      using ne t that by auto
    with t have "0 < count_of ?s' t" by (cases "t = sub_tracker sub") (auto simp: e)
    with t show ?thesis by (intro bexI [of _ t] conjI) (simp_all add: e(3))
  qed
  with assms show ?thesis by (simp add: consistent_def t' e)
next
  case False
  then have "ListenerTracker_decrement (sub_tracker sub) s = s"
    by (simp add: ListenerTracker_decrement_def)
  with assms show ?thesis by (simp add: DelegateSubscription_dispose_def Let_def)
qed

lemma consistent_dispose:
  assumes "consistent s"
  shows "consistent (EventManager_dispose s)"
  by (simp add: consistent_def EventManager_dispose_native [OF assms] EventManager_dispose_tracked)

lemma consistent_exec:
  assumes "consistent (fst st)"
  shows "consistent (fst (exec c st))"
proof (cases st)
  case (Pair s subs)
  with assms have s: "consistent s" by simp
  show ?thesis
  proof (cases c)
    case (AddEventListener pub tgt name cb opts)
    obtain sub s' where r: "EventManager_addEventListener pub tgt name cb opts s = (sub, s')"
      by (cases "EventManager_addEventListener pub tgt name cb opts s")
    with consistent_add [OF s, of pub tgt name cb opts] have "consistent s'" by simp
    then show ?thesis
      by (simp add: Pair AddEventListener r)
  next
    case (DisposeSubscription k)
    from consistent_subscription_dispose [OF s] show ?thesis
      by (simp add: Pair DisposeSubscription s)
  next
    case DisposeManager
    from consistent_dispose [OF s] show ?thesis
      by (simp add: Pair DisposeManager)
  qed
qed

lemma consistent_fold: "consistent (fst st) \<Longrightarrow> consistent (fst (fold exec cmds st))"
  by (induction cmds arbitrary: st) (simp_all add: consistent_exec)

lemma consistent_run: "consistent (fst (run cmds))"
  by (simp add: run_def consistent_fold consistent_new)

subsection \<open>One tracker, many subscriptions\<close>











subsection \<open>No listener survives the manager\<close>

text \<open>
  C7. After any program over the manager, \<open>EventManager.dispose\<close> leaves no native
  listener attached; every per-event tracker map is empty afterwards (the event names
  stay as keys); and every tracker the maps held has its two lookup tables cleared and
  its count set to zero if it was positive (a count that misuse had driven below zero
  is left as it is).
\<close>

theorem manager_dispose:
  "native (EventManager_dispose (fst (run cmds))) = [] \<and>
   trackerMaps (EventManager_dispose (fst (run cmds)))
     = map (\<lambda>(name, m). (name, [])) (trackerMaps (fst (run cmds))) \<and>
   (\<forall>tid \<in> tracked (fst (run cmds)).
      count (trackers (EventManager_dispose (fst (run cmds))) ! tid)
        = min 0 (count (trackers (fst (run cmds)) ! tid)) \<and>
      captureLookups (trackers (EventManager_dispose (fst (run cmds))) ! tid) = Map.empty \<and>
      bubbleLookups (trackers (EventManager_dispose (fst (run cmds))) ! tid) = Map.empty)"
proof -
  let ?s = "fst (run cmds)"
  have cons: "consistent ?s" by (rule consistent_run)
  have "native (EventManager_dispose ?s) = []"
    by (rule EventManager_dispose_native [OF cons])
  moreover have "trackerMaps (EventManager_dispose ?s)
     = map (\<lambda>(name, m). (name, [])) (trackerMaps ?s)"
    by (simp add: EventManager_dispose_eq)
  moreover have "count (trackers (EventManager_dispose ?s) ! tid) = min 0 (count (trackers ?s ! tid)) \<and>
      captureLookups (trackers (EventManager_dispose ?s) ! tid) = Map.empty \<and>
      bubbleLookups (trackers (EventManager_dispose ?s) ! tid) = Map.empty"
    if "tid \<in> tracked ?s" for tid
  proof -
    define D where "D = map snd (concat (map snd (trackerMaps ?s)))"
    from that have D: "tid \<in> set D" by (simp add: D_def tracked_def)
    from that cons have lt: "tid < length (trackers ?s)" by (simp add: consistent_def)
    have "count_of (fold ListenerTracker_dispose D ?s) tid = min 0 (count_of ?s tid)"
      using D lt by (simp add: dispose_list_effect)
    with dispose_list_cleared [OF D lt] show ?thesis
      by (simp add: EventManager_dispose_eq D_def count_of_def)
  qed
  ultimately show ?thesis by blast
qed

theorem manager_dispose_witness:
  "native (EventManager_dispose (fst (run
      [AddEventListener 0 1 ''click'' (FunctionListener 0) None,
       AddEventListener 0 2 ''keydown'' (FunctionListener 1) (Some \<lparr>capture = Some True\<rparr>),
       DisposeSubscription 0]))) = [] \<and>
   native (fst (run
      [AddEventListener 0 1 ''click'' (FunctionListener 0) None,
       AddEventListener 0 2 ''keydown'' (FunctionListener 1) (Some \<lparr>capture = Some True\<rparr>),
       DisposeSubscription 0]))
     = [NativeListener 0 ''keydown'' (TrackerHandleEvent 1) True]"
  using manager_dispose [of
      "[AddEventListener 0 1 ''click'' (FunctionListener 0) None,
        AddEventListener 0 2 ''keydown'' (FunctionListener 1) (Some \<lparr>capture = Some True\<rparr>),
        DisposeSubscription 0]"]
  by (simp add: run_def em_defs)

end
